theory Spec2Isabelle
  imports Main "HOL-Library.Word"
begin

section \<open>The graphic editor of lb5.cpp: scene graph and command history\<close>

text \<open>
  The program keeps its shapes behind \<^verbatim>\<open>shared_ptr<GraphicObject>\<close>: a Group holds
  pointers to its children, the editor holds pointers to the top-level shapes, and a
  command holds a pointer to the shape it adds. Pointers can be copied, so two places can
  name the same object, and \<^verbatim>\<open>move\<close> mutates an object in place. The embedding
  therefore keeps an explicit store: a heap is the list of the objects allocated so far,
  a pointer is an index into it, and \<^verbatim>\<open>make_shared\<close> appends a new cell.

  The coordinates are C++ \<^verbatim>\<open>int\<close>s: 32-bit two's-complement words. Addition,
  subtraction and multiplication wrap around, and the comparisons read the words as
  signed values. (The C++ standard leaves signed overflow undefined; wrapping is what the
  machine instructions of the compiled program do.)
\<close>

subsection \<open>Data model\<close>

type_synonym cint = "32 word"

type_synonym addr = nat

text \<open>
  The three concrete classes. Every object carries the \<^verbatim>\<open>x, y\<close> of its base class
  first; a Circle adds \<^verbatim>\<open>radius\<close>, a Rectangle \<^verbatim>\<open>width, height\<close>, a Group the
  vector \<^verbatim>\<open>children\<close> of pointers.
\<close>

datatype GraphicObject =
    Circle cint cint cint
  | Rectangle cint cint cint cint
  | Group cint cint "addr list"

type_synonym heap = "GraphicObject list"

text \<open>Dereferencing a pointer; \<open>None\<close> when it points at no object of the heap.\<close>

definition deref :: "heap \<Rightarrow> addr \<Rightarrow> GraphicObject option" where
  "deref h a = (if a < length h then Some (h ! a) else None)"

text \<open>\<^verbatim>\<open>make_shared<T>(...)\<close>: a new object in a new cell, and the pointer to it.\<close>

definition make_shared :: "heap \<Rightarrow> GraphicObject \<Rightarrow> addr \<times> heap" where
  "make_shared h ob = (length h, h @ [ob])"

text \<open>\<^verbatim>\<open>dynamic_pointer_cast<Group>(p)\<close> is non-null exactly when p points at a Group.\<close>

fun is_Group :: "GraphicObject option \<Rightarrow> bool" where
  "is_Group (Some (Group x y cs)) = True"
| "is_Group _ = False"

subsection \<open>GraphicObject::move and Group::add\<close>

text \<open>
  \<^verbatim>\<open>virtual void move(int dx, int dy) { x += dx; y += dy; }\<close> is defined in the base
  class and overridden nowhere: it rewrites the two base-class fields of the one object it
  is called on.
\<close>

fun moved :: "GraphicObject \<Rightarrow> cint \<Rightarrow> cint \<Rightarrow> GraphicObject" where
  "moved (Circle x y r) dx dy = Circle (x + dx) (y + dy) r"
| "moved (Rectangle x y w hh) dx dy = Rectangle (x + dx) (y + dy) w hh"
| "moved (Group x y cs) dx dy = Group (x + dx) (y + dy) cs"

definition move :: "heap \<Rightarrow> addr \<Rightarrow> cint \<Rightarrow> cint \<Rightarrow> heap option" where
  "move h a dx dy =
     (case deref h a of
        None \<Rightarrow> None
      | Some ob \<Rightarrow> Some (h[a := moved ob dx dy]))"

text \<open>
  \<^verbatim>\<open>void add(shared_ptr<GraphicObject> obj) { children.push_back(obj); }\<close>
  is a member of Group only; on a pointer to another object there is no such call, which
  is \<open>None\<close> here.
\<close>

definition add :: "heap \<Rightarrow> addr \<Rightarrow> addr \<Rightarrow> heap option" where
  "add h g c =
     (case deref h g of
        Some (Group x y cs) \<Rightarrow> Some (h[g := Group x y (cs @ [c])])
      | _ \<Rightarrow> None)"

subsection \<open>containsPoint\<close>

text \<open>
  The loop of \<^verbatim>\<open>Group::containsPoint\<close> over the children, given in the order it
  visits them: it returns true at the first child that contains the point, false after
  the last one. A child whose own call does not return stops the loop.
\<close>

fun scan_contains :: "(addr \<Rightarrow> bool option) \<Rightarrow> addr list \<Rightarrow> bool option" where
  "scan_contains f [] = Some False"
| "scan_contains f (c # cs) =
     (case f c of
        None \<Rightarrow> None
      | Some True \<Rightarrow> Some True
      | Some False \<Rightarrow> scan_contains f cs)"

text \<open>
  The virtual \<^verbatim>\<open>containsPoint\<close>, dispatched on the object the pointer names. The
  pointer graph may be cyclic, in which case the C++ recursion never returns; the first
  argument bounds the depth of the recursion, and \<open>None\<close> stands for a call that does
  not return a value (the bound is exhausted, or a pointer names no object).
\<close>

fun containsPoint :: "nat \<Rightarrow> heap \<Rightarrow> addr \<Rightarrow> cint \<Rightarrow> cint \<Rightarrow> bool option" where
  "containsPoint 0 h a px py = None"
| "containsPoint (Suc n) h a px py =
     (case deref h a of
        None \<Rightarrow> None
      | Some (Circle x y radius) \<Rightarrow>
          (let dx = px - x; dy = py - y
           in Some (dx * dx + dy * dy \<le>s radius * radius))
      | Some (Rectangle x y width height) \<Rightarrow>
          Some (x \<le>s px \<and> px \<le>s x + width \<and> y \<le>s py \<and> py \<le>s y + height)
      | Some (Group x y children) \<Rightarrow>
          scan_contains (\<lambda>c. containsPoint n h c (px - x) (py - y)) (rev children))"

subsection \<open>Group::findDeepest\<close>

text \<open>
  The loop of \<^verbatim>\<open>findDeepest\<close> and of \<^verbatim>\<open>findElementAt\<close>, which have the same body:
  at the first child (in the order given) that contains the point, return the result of
  \<open>deeper\<close> on it when it is a Group and the child itself otherwise; \<open>dflt\<close> is what the
  function returns after the loop.
\<close>

fun scan_find ::
  "heap \<Rightarrow> (addr \<Rightarrow> bool option) \<Rightarrow> (addr \<Rightarrow> 'r option) \<Rightarrow> (addr \<Rightarrow> 'r) \<Rightarrow> 'r \<Rightarrow> addr list
     \<Rightarrow> 'r option" where
  "scan_find h f deeper leaf dflt [] = Some dflt"
| "scan_find h f deeper leaf dflt (c # cs) =
     (case f c of
        None \<Rightarrow> None
      | Some True \<Rightarrow> (if is_Group (deref h c) then deeper c else Some (leaf c))
      | Some False \<Rightarrow> scan_find h f deeper leaf dflt cs)"

text \<open>
  \<^verbatim>\<open>Group::findDeepest\<close> is a member of Group only; on a pointer to another object
  there is no such call, which is \<open>None\<close> here. \<^verbatim>\<open>shared_from_this()\<close> is the pointer
  the function was called through.
\<close>

fun findDeepest :: "nat \<Rightarrow> heap \<Rightarrow> addr \<Rightarrow> cint \<Rightarrow> cint \<Rightarrow> addr option" where
  "findDeepest 0 h g px py = None"
| "findDeepest (Suc n) h g px py =
     (case deref h g of
        Some (Group x y children) \<Rightarrow>
          scan_find h (\<lambda>c. containsPoint n h c (px - x) (py - y))
            (\<lambda>c. findDeepest n h c (px - x) (py - y)) (\<lambda>c. c) g (rev children)
      | _ \<Rightarrow> None)"

subsection \<open>clone\<close>

text \<open>
  The loop of \<^verbatim>\<open>Group::clone\<close>:
  \<^verbatim>\<open>for (auto& child : children) newGroup->add(child->clone());\<close>
  It reads the children of the object being cloned and writes to the new group.
\<close>

fun clone_children ::
  "(heap \<Rightarrow> addr \<Rightarrow> (addr \<times> heap) option) \<Rightarrow> addr \<Rightarrow> addr list \<Rightarrow> heap \<Rightarrow> heap option" where
  "clone_children f g [] h = Some h"
| "clone_children f g (c # cs) h =
     (case f h c of
        None \<Rightarrow> None
      | Some (c', h') \<Rightarrow>
          (case add h' g c' of
             None \<Rightarrow> None
           | Some h'' \<Rightarrow> clone_children f g cs h''))"

text \<open>
  The virtual \<^verbatim>\<open>clone\<close>. Circle and Rectangle copy-construct themselves into a new
  object; Group makes a new empty group at its own origin and fills it with clones.
  The result is the pointer to the copy and the heap with the new objects.
\<close>

fun clone :: "nat \<Rightarrow> heap \<Rightarrow> addr \<Rightarrow> (addr \<times> heap) option" where
  "clone 0 h a = None"
| "clone (Suc n) h a =
     (case deref h a of
        None \<Rightarrow> None
      | Some (Circle x y r) \<Rightarrow> Some (make_shared h (Circle x y r))
      | Some (Rectangle x y w hh) \<Rightarrow> Some (make_shared h (Rectangle x y w hh))
      | Some (Group x y children) \<Rightarrow>
          (let (newGroup, h1) = make_shared h (Group x y [])
           in map_option (Pair newGroup) (clone_children (\<lambda>h' c. clone n h' c) newGroup children h1)))"

subsection \<open>Commands and the editor\<close>

text \<open>
  \<^verbatim>\<open>AddCommand\<close> holds a reference to a vector and the pointer to add. The only place
  that constructs one is \<^verbatim>\<open>EditorFacade::addObject\<close>, with the editor's own
  \<^verbatim>\<open>objects\<close>, so a command is its pointer and \<^verbatim>\<open>execute\<close> and \<^verbatim>\<open>undo\<close> act
  on the vector of the editor.
\<close>

datatype Command = AddCommand addr

fun execute :: "Command \<Rightarrow> addr list \<Rightarrow> addr list" where
  "execute (AddCommand obj) objects = objects @ [obj]"

fun undo_cmd :: "Command \<Rightarrow> addr list \<Rightarrow> addr list" where
  "undo_cmd (AddCommand obj) objects = (if objects \<noteq> [] then butlast objects else objects)"

text \<open>The editor. The two stacks are lists with the top at the head.\<close>

record EditorFacade =
  objects :: "addr list"
  undoStack :: "Command list"
  redoStack :: "Command list"

text \<open>
  The two texts written to \<^verbatim>\<open>cout\<close>, both in Ukrainian in the source: "there are no
  actions to cancel" in \<^verbatim>\<open>undo\<close> and "there are no actions to repeat" in
  \<^verbatim>\<open>redo\<close>.
\<close>

datatype message = NothingToUndo | NothingToRedo

definition empty_editor :: EditorFacade where
  "empty_editor = \<lparr>objects = [], undoStack = [], redoStack = []\<rparr>"

definition addObject :: "addr \<Rightarrow> EditorFacade \<Rightarrow> EditorFacade" where
  "addObject obj e =
     (let cmd = AddCommand obj
      in \<lparr>objects = execute cmd (objects e),
          undoStack = cmd # undoStack e,
          redoStack = []\<rparr>)"

text \<open>\<^verbatim>\<open>undo\<close> and \<^verbatim>\<open>redo\<close> return the new editor and what they wrote.\<close>

definition undo :: "EditorFacade \<Rightarrow> EditorFacade \<times> message option" where
  "undo e =
     (case undoStack e of
        cmd # rest \<Rightarrow>
          (\<lparr>objects = undo_cmd cmd (objects e),
            undoStack = rest,
            redoStack = cmd # redoStack e\<rparr>, None)
      | [] \<Rightarrow> (e, Some NothingToUndo))"

definition redo :: "EditorFacade \<Rightarrow> EditorFacade \<times> message option" where
  "redo e =
     (case redoStack e of
        cmd # rest \<Rightarrow>
          (\<lparr>objects = execute cmd (objects e),
            undoStack = cmd # undoStack e,
            redoStack = rest\<rparr>, None)
      | [] \<Rightarrow> (e, Some NothingToRedo))"

text \<open>
  \<^verbatim>\<open>findElementAt\<close>: the inner \<open>option\<close> is the pointer returned, \<open>None\<close> for
  \<^verbatim>\<open>nullptr\<close>; the outer one is \<open>None\<close> when a call it makes does not return.
\<close>

definition findElementAt ::
  "nat \<Rightarrow> heap \<Rightarrow> EditorFacade \<Rightarrow> cint \<Rightarrow> cint \<Rightarrow> addr option option" where
  "findElementAt n h e x y =
     scan_find h (\<lambda>c. containsPoint n h c x y)
       (\<lambda>c. map_option Some (findDeepest n h c x y)) Some None (rev (objects e))"

subsection \<open>Reachable states of the editor\<close>

text \<open>
  The three operations the menu offers on the history, and a run of them from a given
  editor. The messages are dropped: they do not influence the state.
\<close>

datatype operation = AddObject addr | Undo | Redo

fun step :: "EditorFacade \<Rightarrow> operation \<Rightarrow> EditorFacade" where
  "step e (AddObject obj) = addObject obj e"
| "step e Undo = fst (undo e)"
| "step e Redo = fst (redo e)"

definition run :: "operation list \<Rightarrow> EditorFacade \<Rightarrow> EditorFacade" where
  "run ops e = foldl step e ops"

subsection \<open>What is reachable from a pointer\<close>

text \<open>
  The objects reachable from a pointer: the object itself and, through the
  \<^verbatim>\<open>children\<close> of every reachable Group, its descendants at every depth.
\<close>

inductive_set reach :: "heap \<Rightarrow> addr \<Rightarrow> addr set" for h :: heap and a :: addr where
  self: "a \<in> reach h a"
| child: "b \<in> reach h a \<Longrightarrow> deref h b = Some (Group x y cs) \<Longrightarrow> c \<in> set cs \<Longrightarrow> c \<in> reach h a"

text \<open>
  The value of a shape: every coordinate and size reachable from a pointer, as a tree.
  It is what \<^verbatim>\<open>draw\<close> prints, line by line. \<open>value_of n h a = Some t\<close> also says
  that the structure under \<open>a\<close> is well formed: every pointer in it names an object, and
  following children ends at leaves within \<open>n\<close> levels (there is no cycle).
\<close>

datatype shape =
    SCircle cint cint cint
  | SRectangle cint cint cint cint
  | SGroup cint cint "shape list"

fun value_of :: "nat \<Rightarrow> heap \<Rightarrow> addr \<Rightarrow> shape option" where
  "value_of 0 h a = None"
| "value_of (Suc n) h a =
     (case deref h a of
        None \<Rightarrow> None
      | Some (Circle x y r) \<Rightarrow> Some (SCircle x y r)
      | Some (Rectangle x y w hh) \<Rightarrow> Some (SRectangle x y w hh)
      | Some (Group x y cs) \<Rightarrow> map_option (SGroup x y) (those (map (value_of n h) cs)))"

text \<open>
  The invariant of the history: the top-level sequence is exactly what the commands on the
  undo stack added, oldest first.
\<close>

fun added :: "Command \<Rightarrow> addr" where
  "added (AddCommand obj) = obj"

definition history_inv :: "EditorFacade \<Rightarrow> bool" where
  "history_inv e = (objects e = rev (map added (undoStack e)))"

subsection \<open>The objects that main() creates\<close>

text \<open>
  The heap after the \<^verbatim>\<open>make_shared\<close> calls of \<^verbatim>\<open>main\<close>, in the order it makes
  them: c1 (cell 0), r1 (1), group1 (2), the Rectangle and the Circle added to group1
  (3, 4), group2 (5) and its Circle (6); group2 is the third child of group1.
\<close>

definition main_heap :: heap where
  "main_heap =
     [Circle 10 10 5, Rectangle 5 7 5 6, Group 2 2 [3, 4, 5],
      Rectangle 3 4 2 3, Circle 1 5 2, Group 4 6 [6], Circle 0 1 3]"

text \<open>
  The heap after \<^verbatim>\<open>group1->clone()\<close> in that state, as \<open>clone\<close> computes it: the
  copy of group1 is cell 7, the copies of its children are cells 8, 9 and 10, and the copy
  of the Circle of group2 is cell 11.
\<close>

definition main_heap_clone :: heap where
  "main_heap_clone =
     main_heap @
     [Group 2 2 [8, 9, 10], Rectangle 3 4 2 3, Circle 1 5 2, Group 4 6 [11], Circle 0 1 3]"


section \<open>The bound on the recursion depth\<close>

text \<open>
  The bound only cuts off recursion that is deeper: a call that returns a value within a
  bound returns the same value within every larger one.
\<close>

lemma scan_contains_mono:
  "scan_contains f cs = Some b \<Longrightarrow> (\<And>c r. f c = Some r \<Longrightarrow> f' c = Some r) \<Longrightarrow>
   scan_contains f' cs = Some b"
proof (induction cs)
  case Nil
  then show ?case by simp
next
  case (Cons c cs)
  then obtain r where r: "f c = Some r" by (cases "f c") auto
  then have "f' c = Some r" by (rule Cons.prems(2))
  then show ?case using Cons r by (cases r) auto
qed

lemma containsPoint_fuel:
  "containsPoint n h a px py = Some b \<Longrightarrow> containsPoint (Suc n) h a px py = Some b"
proof (induction n arbitrary: a px py b)
  case 0
  then show ?case by simp
next
  case (Suc n)
  show ?case
  proof (cases "deref h a")
    case None
    then show ?thesis using Suc.prems by simp
  next
    case (Some ob)
    show ?thesis
    proof (cases ob)
      case (Group x y cs)
      have "scan_contains (\<lambda>c. containsPoint n h c (px - x) (py - y)) (rev cs) = Some b"
        using Suc.prems Some Group by simp
      then have "scan_contains (\<lambda>c. containsPoint (Suc n) h c (px - x) (py - y)) (rev cs) = Some b"
        by (rule scan_contains_mono) (rule Suc.IH)
      then show ?thesis using Some Group by simp
    qed (use Suc.prems Some in simp_all)
  qed
qed

lemma scan_find_mono:
  "scan_find h f d leaf dflt cs = Some b \<Longrightarrow> (\<And>c r. f c = Some r \<Longrightarrow> f' c = Some r) \<Longrightarrow>
   (\<And>c r. d c = Some r \<Longrightarrow> d' c = Some r) \<Longrightarrow>
   scan_find h f' d' leaf dflt cs = Some b"
proof (induction cs)
  case Nil
  then show ?case by simp
next
  case (Cons c cs)
  then obtain r where r: "f c = Some r" by (cases "f c") auto
  then have "f' c = Some r" by (rule Cons.prems(2))
  then show ?case using Cons r by (cases r) auto
qed

lemma findDeepest_fuel:
  "findDeepest n h g px py = Some r \<Longrightarrow> findDeepest (Suc n) h g px py = Some r"
proof (induction n arbitrary: g px py r)
  case 0
  then show ?case by simp
next
  case (Suc n)
  then obtain x y cs where g: "deref h g = Some (Group x y cs)"
    by (auto split: option.splits GraphicObject.splits)
  have "scan_find h (\<lambda>c. containsPoint n h c (px - x) (py - y))
      (\<lambda>c. findDeepest n h c (px - x) (py - y)) (\<lambda>c. c) g (rev cs) = Some r"
    using Suc.prems g by simp
  then have "scan_find h (\<lambda>c. containsPoint (Suc n) h c (px - x) (py - y))
      (\<lambda>c. findDeepest (Suc n) h c (px - x) (py - y)) (\<lambda>c. c) g (rev cs) = Some r"
    by (rule scan_find_mono) (erule containsPoint_fuel, erule Suc.IH)
  then show ?case using g by simp
qed

lemma those_map_mono:
  "those (map f cs) = Some ts \<Longrightarrow> (\<And>c r. f c = Some r \<Longrightarrow> f' c = Some r) \<Longrightarrow>
   those (map f' cs) = Some ts"
proof (induction cs arbitrary: ts)
  case Nil
  then show ?case by simp
next
  case (Cons c cs)
  then obtain r where r: "f c = Some r" by (cases "f c") auto
  then have "f' c = Some r" by (rule Cons.prems(2))
  then show ?case using Cons r by (auto split: option.splits)
qed

lemma value_of_fuel:
  "value_of n h a = Some t \<Longrightarrow> value_of (Suc n) h a = Some t"
proof (induction n arbitrary: a t)
  case 0
  then show ?case by simp
next
  case (Suc n)
  show ?case
  proof (cases "deref h a")
    case None
    then show ?thesis using Suc.prems by simp
  next
    case (Some ob)
    show ?thesis
    proof (cases ob)
      case (Group x y cs)
      then obtain ts where ts: "those (map (value_of n h) cs) = Some ts" "t = SGroup x y ts"
        using Suc.prems Some by auto
      have "those (map (value_of (Suc n) h) cs) = Some ts"
        using ts(1) by (rule those_map_mono) (rule Suc.IH)
      then show ?thesis using Some Group ts(2) by simp
    qed (use Suc.prems Some in simp_all)
  qed
qed

lemma clone_children_mono:
  "clone_children f g cs h = Some hf \<Longrightarrow> (\<And>h c r. f h c = Some r \<Longrightarrow> f' h c = Some r) \<Longrightarrow>
   clone_children f' g cs h = Some hf"
proof (induction cs arbitrary: h)
  case Nil
  then show ?case by simp
next
  case (Cons c cs)
  then obtain r where r: "f h c = Some r" by (cases "f h c") auto
  then have r': "f' h c = Some r" by (rule Cons.prems(2))
  obtain c' h1 where p: "r = (c', h1)" by (cases r)
  obtain h2 where h2: "add h1 g c' = Some h2"
    using Cons.prems(1) r p by (cases "add h1 g c'") auto
  have "clone_children f g cs h2 = Some hf"
    using Cons.prems(1) r p h2 by simp
  then have "clone_children f' g cs h2 = Some hf"
    by (rule Cons.IH) (rule Cons.prems(2))
  then show ?case using r' p h2 by simp
qed

lemma clone_fuel:
  "clone n h a = Some r \<Longrightarrow> clone (Suc n) h a = Some r"
proof (induction n arbitrary: h a r)
  case 0
  then show ?case by simp
next
  case (Suc n)
  show ?case
  proof (cases "deref h a")
    case None
    then show ?thesis using Suc.prems by simp
  next
    case (Some ob)
    show ?thesis
    proof (cases ob)
      case (Group x y cs)
      let ?h1 = "h @ [Group x y []]"
      obtain hf where hf: "clone_children (\<lambda>h' c. clone n h' c) (length h) cs ?h1 = Some hf"
          "r = (length h, hf)"
        using Suc.prems Some Group by (auto simp: make_shared_def)
      have "clone_children (\<lambda>h' c. clone (Suc n) h' c) (length h) cs ?h1 = Some hf"
        using hf(1) by (rule clone_children_mono) (rule Suc.IH)
      then show ?thesis
        using Some Group hf(2)
        by (subst clone.simps(2)) (simp add: make_shared_def del: clone.simps)
    qed (use Suc.prems Some in simp_all)
  qed
qed

section \<open>The command history\<close>

text \<open>
  C1. From any editor state, \<^verbatim>\<open>addObject(s)\<close> then \<^verbatim>\<open>undo()\<close> gives back the
  top-level sequence there was before the add, and a \<^verbatim>\<open>redo()\<close> after that appends
  \<open>s\<close> again as the last element. What comes back is the same pointer, and none of the
  three operations writes to an object, so it has the value of the original in every heap.
\<close>

theorem add_undo_redo_roundtrip:
  "objects (fst (undo (addObject s e))) = objects e \<and>
   snd (undo (addObject s e)) = None \<and>
   objects (fst (redo (fst (undo (addObject s e))))) = objects e @ [s] \<and>
   last (objects (fst (redo (fst (undo (addObject s e)))))) = s \<and>
   snd (redo (fst (undo (addObject s e)))) = None \<and>
   value_of n h (last (objects (fst (redo (fst (undo (addObject s e))))))) = value_of n h s"
  by (simp add: undo_def redo_def addObject_def)

text \<open>
  C2. Every \<^verbatim>\<open>addObject\<close> leaves the redo stack empty. After \<^verbatim>\<open>addObject(a)\<close>,
  \<^verbatim>\<open>undo()\<close>, \<^verbatim>\<open>addObject(b)\<close> the redo stack is empty, a \<^verbatim>\<open>redo()\<close> changes
  nothing and writes the "nothing to redo" message, and the top-level sequence is the one
  from before with \<open>b\<close> appended: \<open>a\<close> is not appended again.
\<close>

theorem addObject_clears_redo:
  "redoStack (addObject b e) = [] \<and>
   redoStack (addObject b (fst (undo (addObject a e)))) = [] \<and>
   redo (addObject b (fst (undo (addObject a e)))) =
     (addObject b (fst (undo (addObject a e))), Some NothingToRedo) \<and>
   objects (fst (redo (addObject b (fst (undo (addObject a e)))))) = objects e @ [b]"
  by (simp add: undo_def redo_def addObject_def)

text \<open>
  C6. \<^verbatim>\<open>undo()\<close> with an empty undo stack, and \<^verbatim>\<open>redo()\<close> with an empty redo
  stack, return the editor as it was (the same top-level sequence and the same two stacks)
  and write the "nothing to undo" or the "nothing to redo" message.
\<close>

theorem history_underflow:
  "(undoStack e = [] \<longrightarrow> undo e = (e, Some NothingToUndo)) \<and>
   (redoStack e = [] \<longrightarrow> redo e = (e, Some NothingToRedo))"
  by (simp add: undo_def redo_def)

theorem history_underflow_witness:
  "undoStack empty_editor = [] \<and> undo empty_editor = (empty_editor, Some NothingToUndo) \<and>
   redoStack empty_editor = [] \<and> redo empty_editor = (empty_editor, Some NothingToRedo)"
  using history_underflow [of empty_editor] by (simp add: empty_editor_def)

lemma history_inv_empty: "history_inv empty_editor"
  by (simp add: history_inv_def empty_editor_def)

lemma history_inv_step: "history_inv e \<Longrightarrow> history_inv (step e op)"
proof (cases op)
  case (AddObject obj)
  assume "history_inv e"
  then show ?thesis
    using AddObject by (simp add: history_inv_def addObject_def)
next
  case Undo
  assume "history_inv e"
  then show ?thesis
    using Undo by (cases "undoStack e"; cases "hd (undoStack e)") (auto simp: history_inv_def undo_def)
next
  case Redo
  assume "history_inv e"
  then show ?thesis
    using Redo by (cases "redoStack e"; cases "hd (redoStack e)") (auto simp: history_inv_def redo_def)
qed

lemma history_inv_run: "history_inv e \<Longrightarrow> history_inv (run ops e)"
  unfolding run_def by (induction ops arbitrary: e) (simp_all add: history_inv_step)

text \<open>
  C9. In every state reached from the empty editor by a run of \<^verbatim>\<open>addObject\<close>,
  \<^verbatim>\<open>undo\<close> and \<^verbatim>\<open>redo\<close>: when the undo stack is not empty, so that \<^verbatim>\<open>undo()\<close>
  pops its top command, the top-level sequence is not empty and its last element is the
  pointer that command added. \<^verbatim>\<open>undo()\<close> then removes exactly that element: the guard
  of \<^verbatim>\<open>AddCommand::undo\<close> never finds the vector empty.
\<close>

theorem undo_removes_what_was_added:
  "e = run ops empty_editor \<Longrightarrow> undoStack e = AddCommand obj # rest \<Longrightarrow>
   objects e \<noteq> [] \<and> last (objects e) = obj \<and>
   objects (fst (undo e)) = butlast (objects e)"
proof -
  assume e: "e = run ops empty_editor" and top: "undoStack e = AddCommand obj # rest"
  have "history_inv e"
    using e history_inv_run [OF history_inv_empty] by simp
  then have "objects e = rev (map added rest) @ [obj]"
    using top by (simp add: history_inv_def)
  then show ?thesis
    using top by (simp add: undo_def)
qed

theorem undo_removes_what_was_added_witness:
  "undoStack (run [AddObject 7, AddObject 4, Undo, Redo, AddObject 9, Undo] empty_editor)
     = [AddCommand 4, AddCommand 7] \<and>
   objects (run [AddObject 7, AddObject 4, Undo, Redo, AddObject 9, Undo] empty_editor) = [7, 4] \<and>
   objects (fst (undo (run [AddObject 7, AddObject 4, Undo, Redo, AddObject 9, Undo] empty_editor)))
     = [7]"
proof -
  have top: "undoStack (run [AddObject 7, AddObject 4, Undo, Redo, AddObject 9, Undo] empty_editor)
      = AddCommand 4 # [AddCommand 7]"
    by (simp add: run_def empty_editor_def addObject_def undo_def redo_def)
  have obs: "objects (run [AddObject 7, AddObject 4, Undo, Redo, AddObject 9, Undo] empty_editor) = [7, 4]"
    by (simp add: run_def empty_editor_def addObject_def undo_def redo_def)
  show ?thesis
    using undo_removes_what_was_added [OF refl top] top obs by simp
qed

section \<open>Heaps: frames and well-formed shapes\<close>

lemma deref_SomeD: "deref h a = Some ob \<Longrightarrow> a < length h \<and> h ! a = ob"
  by (simp add: deref_def split: if_splits)

lemma deref_update: "deref (h[b := ob]) a = (if a = b \<and> b < length h then Some ob else deref h a)"
  by (simp add: deref_def)

lemma deref_append: "a < length h \<Longrightarrow> deref (h @ h2) a = deref h a"
  by (simp add: deref_def nth_append)

lemma scan_contains_cong:
  "(\<And>c. c \<in> set cs \<Longrightarrow> f c = g c) \<Longrightarrow> scan_contains f cs = scan_contains g cs"
  by (induction cs) (simp_all split: option.splits bool.splits)

lemma reach_trans: "c \<in> reach h b \<Longrightarrow> b \<in> reach h a \<Longrightarrow> c \<in> reach h a"
  by (induction rule: reach.induct) (auto intro: reach.child)

lemma reach_child_subset:
  "deref h a = Some (Group x y cs) \<Longrightarrow> c \<in> set cs \<Longrightarrow> reach h c \<subseteq> reach h a"
  by (meson reach.child reach.self reach_trans subsetI)

lemma reach_frame_sub:
  assumes "\<And>b. b \<in> reach h a \<Longrightarrow> deref h' b = deref h b"
  shows "c \<in> reach h a \<Longrightarrow> c \<in> reach h' a"
  by (induction rule: reach.induct) (auto intro: reach.self reach.child simp: assms)

lemma reach_frame_sup:
  assumes "\<And>b. b \<in> reach h a \<Longrightarrow> deref h' b = deref h b"
  shows "c \<in> reach h' a \<Longrightarrow> c \<in> reach h a"
  by (induction rule: reach.induct) (auto intro: reach.self reach.child simp: assms)

lemma reach_frame:
  "(\<And>b. b \<in> reach h a \<Longrightarrow> deref h' b = deref h b) \<Longrightarrow> reach h' a = reach h a"
  using reach_frame_sub reach_frame_sup by blast

lemma value_of_frame:
  "(\<And>b. b \<in> reach h a \<Longrightarrow> deref h' b = deref h b) \<Longrightarrow> value_of n h' a = value_of n h a"
proof (induction n arbitrary: a)
  case 0
  show ?case by simp
next
  case (Suc n)
  have da: "deref h' a = deref h a"
    using Suc.prems reach.self by blast
  show ?case
  proof (cases "deref h a")
    case None
    then show ?thesis using da by simp
  next
    case (Some ob)
    show ?thesis
    proof (cases ob)
      case (Group x y cs)
      have "value_of n h' c = value_of n h c" if "c \<in> set cs" for c
      proof (rule Suc.IH)
        fix b assume "b \<in> reach h c"
        then have "b \<in> reach h a"
          using reach_child_subset Some Group that by blast
        then show "deref h' b = deref h b" by (rule Suc.prems)
      qed
      then show ?thesis using da Some Group by (simp cong: map_cong)
    qed (use da Some in simp_all)
  qed
qed

lemma containsPoint_frame:
  "(\<And>b. b \<in> reach h a \<Longrightarrow> deref h' b = deref h b) \<Longrightarrow>
   containsPoint n h' a px py = containsPoint n h a px py"
proof (induction n arbitrary: a px py)
  case 0
  show ?case by simp
next
  case (Suc n)
  have da: "deref h' a = deref h a"
    using Suc.prems reach.self by blast
  show ?case
  proof (cases "deref h a")
    case None
    then show ?thesis using da by simp
  next
    case (Some ob)
    show ?thesis
    proof (cases ob)
      case (Group x y cs)
      have "containsPoint n h' c qx qy = containsPoint n h c qx qy" if "c \<in> set cs" for c qx qy
      proof (rule Suc.IH)
        fix b assume "b \<in> reach h c"
        then have "b \<in> reach h a"
          using reach_child_subset Some Group that by blast
        then show "deref h' b = deref h b" by (rule Suc.prems)
      qed
      then have "scan_contains (\<lambda>c. containsPoint n h' c (px - x) (py - y)) (rev cs)
               = scan_contains (\<lambda>c. containsPoint n h c (px - x) (py - y)) (rev cs)"
        by (intro scan_contains_cong) simp
      then show ?thesis using da Some Group by simp
    qed (use da Some in simp_all)
  qed
qed

lemma those_map_Some:
  "those (map f xs) = Some ys \<Longrightarrow> x \<in> set xs \<Longrightarrow> \<exists>y. f x = Some y"
  by (induction xs arbitrary: ys) (auto split: option.splits)

lemma value_of_child:
  "value_of n h a = Some t \<Longrightarrow> deref h a = Some (Group x y cs) \<Longrightarrow> c \<in> set cs \<Longrightarrow>
   \<exists>m t'. n = Suc m \<and> value_of m h c = Some t'"
  by (cases n) (auto dest: those_map_Some)

lemma value_of_reach:
  "b \<in> reach h a \<Longrightarrow> value_of n h a = Some t \<Longrightarrow> \<exists>m t'. m \<le> n \<and> value_of m h b = Some t'"
proof (induction rule: reach.induct)
  case self
  then show ?case by blast
next
  case (child b x y cs c)
  then obtain m t' where m: "m \<le> n" "value_of m h b = Some t'" by blast
  from value_of_child [OF m(2) child.hyps(2) child.hyps(3)]
  obtain k t'' where "m = Suc k" "value_of k h c = Some t''" by blast
  then show ?case using m(1) by (meson Suc_leD le_trans)
qed

lemma value_of_allocated: "value_of n h a = Some t \<Longrightarrow> a < length h"
  by (cases n) (auto simp: deref_def split: if_splits)

lemma value_of_reach_allocated:
  "value_of n h a = Some t \<Longrightarrow> b \<in> reach h a \<Longrightarrow> b < length h"
  using value_of_reach value_of_allocated by blast

lemma value_of_acyclic:
  assumes "value_of n h g = Some t" "deref h g = Some (Group x y cs)" "c \<in> set cs"
  shows "g \<notin> reach h c"
proof
  assume g: "g \<in> reach h c"
  define k where "k = (LEAST k. \<exists>t. value_of k h g = Some t)"
  have "\<exists>t. value_of k h g = Some t"
    unfolding k_def by (rule LeastI_ex) (use assms(1) in blast)
  then obtain tk where tk: "value_of k h g = Some tk" by blast
  from value_of_child [OF tk assms(2) assms(3)]
  obtain m t' where m: "k = Suc m" "value_of m h c = Some t'" by blast
  from value_of_reach [OF g m(2)]
  obtain j t'' where j: "j \<le> m" "value_of j h g = Some t''" by blast
  then have "k \<le> j"
    unfolding k_def by (intro Least_le) blast
  then show False using j(1) m(1) by simp
qed

lemma scan_contains_total:
  "(\<And>c. c \<in> set cs \<Longrightarrow> \<exists>b. f c = Some b) \<Longrightarrow> \<exists>b. scan_contains f cs = Some b"
proof (induction cs)
  case Nil
  show ?case by auto
next
  case (Cons c cs)
  then obtain b where "f c = Some b" by auto
  moreover have "\<exists>b. scan_contains f cs = Some b" using Cons by simp
  ultimately show ?case by (cases b) auto
qed

lemma containsPoint_total:
  "value_of n h a = Some t \<Longrightarrow> \<exists>b. containsPoint n h a px py = Some b"
proof (induction n arbitrary: a t px py)
  case 0
  then show ?case by simp
next
  case (Suc n)
  then obtain ob where ob: "deref h a = Some ob"
    by (cases "deref h a") auto
  show ?case
  proof (cases ob)
    case (Group x y cs)
    have "\<exists>b. containsPoint n h c (px - x) (py - y) = Some b" if "c \<in> set (rev cs)" for c
    proof -
      have "deref h a = Some (Group x y cs)" "c \<in> set cs"
        using ob Group that by simp_all
      from value_of_child [OF Suc.prems this]
      obtain t' where "value_of n h c = Some t'" by auto
      then show ?thesis by (rule Suc.IH)
    qed
    then have "\<exists>b. scan_contains (\<lambda>c. containsPoint n h c (px - x) (py - y)) (rev cs) = Some b"
      by (rule scan_contains_total)
    then show ?thesis using ob Group by simp
  qed (use ob in \<open>simp_all add: Let_def\<close>)
qed

lemma scan_find_first:
  "(\<And>c. c \<in> set cs \<Longrightarrow> \<exists>b. f c = Some b) \<Longrightarrow>
   scan_find h f deeper leaf dflt cs =
     (case find (\<lambda>c. f c = Some True) cs of
        None \<Rightarrow> Some dflt
      | Some c \<Rightarrow> if is_Group (deref h c) then deeper c else Some (leaf c))"
proof (induction cs)
  case Nil
  show ?case by simp
next
  case (Cons c cs)
  then obtain b where "f c = Some b" by auto
  then show ?case using Cons by (cases b) auto
qed

lemma scan_find_result:
  "scan_find h f deeper leaf dflt cs = Some r \<Longrightarrow>
   (r = dflt \<and> (\<forall>c\<in>set cs. f c = Some False)) \<or>
   (\<exists>c\<in>set cs. f c = Some True \<and>
      (if is_Group (deref h c) then deeper c = Some r else r = leaf c))"
  by (induction cs) (auto split: option.splits bool.splits if_splits)

lemma scan_contains_True:
  "scan_contains f cs = Some True \<Longrightarrow> \<exists>c\<in>set cs. f c = Some True"
  by (induction cs) (auto split: option.splits bool.splits)

lemma scan_contains_hit:
  "(\<And>c. c \<in> set cs \<Longrightarrow> \<exists>b. f c = Some b) \<Longrightarrow> c \<in> set cs \<Longrightarrow> f c = Some True \<Longrightarrow>
   scan_contains f cs = Some True"
proof (induction cs)
  case Nil
  then show ?case by simp
next
  case (Cons d cs)
  obtain b where "f d = Some b" using Cons.prems(1) by auto
  then show ?case using Cons by (cases b) auto
qed

lemma find_SomeD: "find P xs = Some x \<Longrightarrow> x \<in> set xs \<and> P x"
  by (induction xs) (auto split: if_splits)

lemma is_Group_iff: "is_Group ob = (\<exists>x y cs. ob = Some (Group x y cs))"
  by (cases ob rule: is_Group.cases) simp_all

lemma findDeepest_reach:
  "findDeepest n h g px py = Some r \<Longrightarrow> r \<in> reach h g"
proof (induction n arbitrary: g px py)
  case 0
  then show ?case by simp
next
  case (Suc n)
  then obtain x y cs where g: "deref h g = Some (Group x y cs)"
    by (auto split: option.splits GraphicObject.splits)
  let ?f = "\<lambda>c. containsPoint n h c (px - x) (py - y)"
  let ?d = "\<lambda>c. findDeepest n h c (px - x) (py - y)"
  have "scan_find h ?f ?d (\<lambda>c. c) g (rev cs) = Some r"
    using Suc.prems g by simp
  from scan_find_result [OF this]
  consider "r = g" | c where "c \<in> set cs" "if is_Group (deref h c) then ?d c = Some r else r = c"
    by auto
  then show ?case
  proof cases
    case 1
    then show ?thesis by (simp add: reach.self)
  next
    case 2
    have "r \<in> reach h c"
      using 2(2) Suc.IH by (auto simp: reach.self split: if_splits)
    then show ?thesis
      using reach_child_subset [OF g 2(1)] by blast
  qed
qed

lemma findDeepest_leaf:
  "containsPoint n h g px py = Some True \<Longrightarrow> findDeepest n h g px py = Some r \<Longrightarrow>
   \<not> is_Group (deref h r)"
proof (induction n arbitrary: g px py)
  case 0
  then show ?case by simp
next
  case (Suc n)
  then obtain x y cs where g: "deref h g = Some (Group x y cs)"
    by (auto split: option.splits GraphicObject.splits)
  let ?f = "\<lambda>c. containsPoint n h c (px - x) (py - y)"
  let ?d = "\<lambda>c. findDeepest n h c (px - x) (py - y)"
  have find: "scan_find h ?f ?d (\<lambda>c. c) g (rev cs) = Some r"
    using Suc.prems g by simp
  have "scan_contains ?f (rev cs) = Some True"
    using Suc.prems g by simp
  then have "\<not> (\<forall>c\<in>set (rev cs). ?f c = Some False)"
    using scan_contains_True by fastforce
  with scan_find_result [OF find]
  obtain c where c: "?f c = Some True" "if is_Group (deref h c) then ?d c = Some r else r = c"
    by auto
  show ?case
  proof (cases "is_Group (deref h c)")
    case True
    then show ?thesis using c Suc.IH by auto
  next
    case False
    then show ?thesis using c by simp
  qed
qed

lemma findDeepest_total:
  "value_of n h g = Some t \<Longrightarrow> is_Group (deref h g) \<Longrightarrow> \<exists>r. findDeepest n h g px py = Some r"
proof (induction n arbitrary: g t px py)
  case 0
  then show ?case by simp
next
  case (Suc n)
  then obtain x y cs where g: "deref h g = Some (Group x y cs)"
    by (auto simp: is_Group_iff)
  let ?f = "\<lambda>c. containsPoint n h c (px - x) (py - y)"
  let ?d = "\<lambda>c. findDeepest n h c (px - x) (py - y)"
  have kids: "\<exists>t'. value_of n h c = Some t'" if "c \<in> set (rev cs)" for c
    using value_of_child [OF Suc.prems(1) g] that by auto
  have total: "\<exists>b. ?f c = Some b" if "c \<in> set (rev cs)" for c
    using kids [OF that] containsPoint_total by blast
  have "\<exists>r. (case find (\<lambda>c. ?f c = Some True) (rev cs) of
        None \<Rightarrow> Some g
      | Some c \<Rightarrow> if is_Group (deref h c) then ?d c else Some c) = Some r"
  proof (cases "find (\<lambda>c. ?f c = Some True) (rev cs)")
    case None
    then show ?thesis by simp
  next
    case (Some c)
    then have "c \<in> set (rev cs)"
      by (auto dest: find_SomeD)
    then obtain t' where "value_of n h c = Some t'"
      using kids by blast
    then show ?thesis
      using Some Suc.IH by (cases "is_Group (deref h c)") auto
  qed
  then show ?case
    using g scan_find_first [of "rev cs" ?f h ?d "\<lambda>c. c" g] total by simp
qed

text \<open>
  C4. For a Group \<open>g\<close> at \<open>(x, y)\<close> with children \<open>cs\<close>, whose structure is well formed,
  and a point \<open>(px, py)\<close> of the parent frame: \<^verbatim>\<open>findDeepest\<close> returns a pointer, and
  it is determined by the first child, in reverse insertion order, whose
  \<^verbatim>\<open>containsPoint\<close> holds at the translated point \<open>(px - x, py - y)\<close>. When there is
  none the result is \<open>g\<close> itself; when that child is a Group it is the result of the
  child's \<^verbatim>\<open>findDeepest\<close> at the translated point; otherwise it is the child.
\<close>

theorem findDeepest_scan:
  assumes "value_of (Suc n) h g = Some t" and "deref h g = Some (Group x y cs)"
  shows "findDeepest (Suc n) h g px py =
           (case find (\<lambda>c. containsPoint n h c (px - x) (py - y) = Some True) (rev cs) of
              None \<Rightarrow> Some g
            | Some c \<Rightarrow>
                if is_Group (deref h c) then findDeepest n h c (px - x) (py - y) else Some c) \<and>
         (\<exists>r. findDeepest (Suc n) h g px py = Some r)"
proof -
  have "\<exists>b. containsPoint n h c (px - x) (py - y) = Some b" if "c \<in> set (rev cs)" for c
    using value_of_child [OF assms] that containsPoint_total by fastforce
  then have "scan_find h (\<lambda>c. containsPoint n h c (px - x) (py - y))
      (\<lambda>c. findDeepest n h c (px - x) (py - y)) (\<lambda>c. c) g (rev cs) =
     (case find (\<lambda>c. containsPoint n h c (px - x) (py - y) = Some True) (rev cs) of
              None \<Rightarrow> Some g
            | Some c \<Rightarrow>
                if is_Group (deref h c) then findDeepest n h c (px - x) (py - y) else Some c)"
    by (rule scan_find_first)
  moreover have "\<exists>r. findDeepest (Suc n) h g px py = Some r"
    using findDeepest_total [OF assms(1)] assms(2) by simp
  ultimately show ?thesis
    using assms(2) by simp
qed

lemma findDeepest_hit:
  "containsPoint n h g px py = Some True \<Longrightarrow> is_Group (deref h g) \<Longrightarrow>
   \<exists>r. findDeepest n h g px py = Some r"
proof (induction n arbitrary: g px py)
  case 0
  then show ?case by simp
next
  case (Suc n)
  then obtain x y cs where g: "deref h g = Some (Group x y cs)"
    by (auto simp: is_Group_iff)
  let ?f = "\<lambda>c. containsPoint n h c (px - x) (py - y)"
  let ?d = "\<lambda>c. findDeepest n h c (px - x) (py - y)"
  have sc: "scan_contains ?f (rev cs) = Some True"
    using Suc.prems g by simp
  have "scan_contains ?f ks = Some True \<Longrightarrow> \<exists>r. scan_find h ?f ?d (\<lambda>c. c) g ks = Some r" for ks
  proof (induction ks)
    case Nil
    then show ?case by simp
  next
    case (Cons k ks)
    then show ?case
      using Suc.IH by (auto split: option.splits bool.splits)
  qed
  then show ?case using sc g by simp
qed

text \<open>
  C3, as the code has it. Let B be the shape added last, after A, and let the point be
  contained in B (whether or not A contains it too). Top-level shapes are scanned in
  reverse insertion order and the first match wins, so A is never consulted. When B is a
  Circle or a Rectangle, \<^verbatim>\<open>findElementAt\<close> returns B. When B is a Group it returns
  what \<^verbatim>\<open>B->findDeepest\<close> returns: a shape reachable from B that is not a Group, and
  so not B itself.
\<close>

theorem findElementAt_last_added:
  assumes "containsPoint n h b px py = Some True"
  shows "(\<not> is_Group (deref h b) \<longrightarrow>
            findElementAt n h (addObject b (addObject a e)) px py = Some (Some b)) \<and>
         (is_Group (deref h b) \<longrightarrow>
            (\<exists>r. findElementAt n h (addObject b (addObject a e)) px py = Some (Some r) \<and>
                 findDeepest n h b px py = Some r \<and>
                 r \<noteq> b \<and> r \<in> reach h b \<and> \<not> is_Group (deref h r)))"
proof -
  have scan: "findElementAt n h (addObject b (addObject a e)) px py =
      (if is_Group (deref h b) then map_option Some (findDeepest n h b px py) else Some (Some b))"
    using assms by (simp add: findElementAt_def addObject_def)
  show ?thesis
  proof (cases "is_Group (deref h b)")
    case False
    then show ?thesis using scan by simp
  next
    case True
    obtain r where r: "findDeepest n h b px py = Some r"
      using findDeepest_hit [OF assms True] by blast
    have leaf: "\<not> is_Group (deref h r)"
      using findDeepest_leaf [OF assms r] .
    then have "r \<noteq> b" using True by auto
    then show ?thesis
      using True scan r leaf findDeepest_reach [OF r] by simp
  qed
qed

theorem findElementAt_last_added_witness:
  "containsPoint 3 main_heap 1 7 9 = Some True \<and>
   \<not> is_Group (deref main_heap 1) \<and>
   findElementAt 3 main_heap (addObject 1 (addObject 0 empty_editor)) 7 9 = Some (Some 1) \<and>
   containsPoint 3 main_heap 2 7 9 = Some True \<and>
   is_Group (deref main_heap 2) \<and>
   findElementAt 3 main_heap (addObject 2 (addObject 0 empty_editor)) 7 9 = Some (Some 6)"
proof -
  have r1: "containsPoint 3 main_heap 1 7 9 = Some True"
    by (simp add: main_heap_def deref_def eval_nat_numeral word_sle_eq)
  have leaf: "\<not> is_Group (deref main_heap 1)"
    by (simp add: main_heap_def deref_def)
  have g1: "containsPoint 3 main_heap 2 7 9 = Some True"
    by (simp add: main_heap_def deref_def eval_nat_numeral word_sle_eq)
  have grp: "is_Group (deref main_heap 2)"
    by (simp add: main_heap_def deref_def)
  have fd: "findDeepest 3 main_heap 2 7 9 = Some 6"
    by (simp add: main_heap_def deref_def eval_nat_numeral word_sle_eq)
  show ?thesis
    using findElementAt_last_added [OF r1, of 0 empty_editor]
      findElementAt_last_added [OF g1, of 0 empty_editor] r1 leaf g1 grp fd
    by auto
qed

text \<open>
  C3 as stated fails when B is a Group. With the objects of \<^verbatim>\<open>main\<close>: A is c1, the
  Circle (10, 10) of radius 5, B is group1, both contain the point (7, 9), and the result
  is the Circle inside group2 (cell 6), two levels below B, not B (cell 2).
\<close>

theorem findElementAt_group_counterexample:
  "objects (addObject 2 (addObject 0 empty_editor)) = [0, 2] \<and>
   containsPoint 3 main_heap 0 7 9 = Some True \<and>
   containsPoint 3 main_heap 2 7 9 = Some True \<and>
   findElementAt 3 main_heap (addObject 2 (addObject 0 empty_editor)) 7 9 = Some (Some 6) \<and>
   findElementAt 3 main_heap (addObject 2 (addObject 0 empty_editor)) 7 9 \<noteq> Some (Some 2)"
  by (simp add: main_heap_def deref_def eval_nat_numeral word_sle_eq findElementAt_def
      addObject_def empty_editor_def)

theorem findDeepest_scan_witness:
  "value_of 3 main_heap 2 =
     Some (SGroup 2 2 [SRectangle 3 4 2 3, SCircle 1 5 2, SGroup 4 6 [SCircle 0 1 3]]) \<and>
   deref main_heap 2 = Some (Group 2 2 [3, 4, 5]) \<and>
   findDeepest 3 main_heap 2 5 6 = Some 3 \<and>
   findDeepest 3 main_heap 2 7 9 = Some 6 \<and>
   findDeepest 3 main_heap 2 100 100 = Some 2"
proof -
  have v: "value_of (Suc 2) main_heap 2 =
     Some (SGroup 2 2 [SRectangle 3 4 2 3, SCircle 1 5 2, SGroup 4 6 [SCircle 0 1 3]])"
    by (simp add: main_heap_def deref_def eval_nat_numeral)
  have d: "deref main_heap 2 = Some (Group 2 2 [3, 4, 5])"
    by (simp add: main_heap_def deref_def)
  have three: "Suc 2 = 3" by simp
  have c5: "containsPoint 2 main_heap 5 3 4 = Some False"
    "containsPoint 2 main_heap 4 3 4 = Some False"
    "containsPoint 2 main_heap 3 3 4 = Some True"
    "containsPoint 2 main_heap 5 5 7 = Some True"
    "containsPoint 2 main_heap 5 98 98 = Some False"
    "containsPoint 2 main_heap 4 98 98 = Some False"
    "containsPoint 2 main_heap 3 98 98 = Some False"
    by (simp_all add: main_heap_def deref_def eval_nat_numeral word_sle_eq)
  have g5: "is_Group (deref main_heap 5)" "\<not> is_Group (deref main_heap 3)"
    by (simp_all add: main_heap_def deref_def)
  have f5: "findDeepest 2 main_heap 5 5 7 = Some 6"
    by (simp add: main_heap_def deref_def eval_nat_numeral word_sle_eq)
  show ?thesis
    using findDeepest_scan [OF v d, of 5 6] findDeepest_scan [OF v d, of 7 9]
      findDeepest_scan [OF v d, of 100 100] v d
    by (simp add: three c5 g5 f5)
qed

lemma findDeepest_self_or_leaf:
  "findDeepest n h g px py = Some r \<Longrightarrow> r = g \<or> \<not> is_Group (deref h r)"
proof (cases n)
  case 0
  assume "findDeepest n h g px py = Some r"
  then show ?thesis using 0 by simp
next
  case (Suc k)
  assume r: "findDeepest n h g px py = Some r"
  then obtain x y cs where g: "deref h g = Some (Group x y cs)"
    using Suc by (auto split: option.splits GraphicObject.splits)
  let ?f = "\<lambda>c. containsPoint k h c (px - x) (py - y)"
  let ?d = "\<lambda>c. findDeepest k h c (px - x) (py - y)"
  have "scan_find h ?f ?d (\<lambda>c. c) g (rev cs) = Some r"
    using r g Suc by simp
  from scan_find_result [OF this]
  consider "r = g"
    | c where "?f c = Some True" "if is_Group (deref h c) then ?d c = Some r else r = c"
    by auto
  then show ?thesis
  proof cases
    case 1
    then show ?thesis by simp
  next
    case 2
    then show ?thesis
      using findDeepest_leaf by (cases "is_Group (deref h c)") auto
  qed
qed

lemma findElementAt_leaf:
  assumes "findElementAt n h e px py = Some (Some r)"
  shows "\<not> is_Group (deref h r)"
proof -
  let ?f = "\<lambda>c. containsPoint n h c px py"
  let ?d = "\<lambda>c. map_option Some (findDeepest n h c px py)"
  have "scan_find h ?f ?d Some None (rev (objects e)) = Some (Some r)"
    using assms by (simp add: findElementAt_def)
  from scan_find_result [OF this]
  obtain c where c: "?f c = Some True"
      "if is_Group (deref h c) then ?d c = Some (Some r) else Some r = Some c"
    by auto
  show ?thesis
  proof (cases "is_Group (deref h c)")
    case True
    then have "findDeepest n h c px py = Some r" using c(2) by auto
    then show ?thesis using findDeepest_leaf c(1) by blast
  next
    case False
    then show ?thesis using c(2) by simp
  qed
qed

text \<open>
  C10. A Group with no children contains no point. A Group contains a point only when one
  of its children contains the translated point. An empty Group is therefore never the
  result of a hit test: what \<^verbatim>\<open>findElementAt\<close> returns is never an empty Group, and
  what \<^verbatim>\<open>findDeepest\<close> returns, when it is not the Group it was called on, is never
  an empty Group.
\<close>

theorem empty_group_never_hit:
  "(deref h g = Some (Group x y []) \<longrightarrow> containsPoint (Suc n) h g px py = Some False) \<and>
   (deref h g = Some (Group x y cs) \<longrightarrow> containsPoint (Suc n) h g px py = Some True \<longrightarrow>
      (\<exists>c\<in>set cs. containsPoint n h c (px - x) (py - y) = Some True)) \<and>
   (findElementAt m h e qx qy = Some (Some r) \<longrightarrow> deref h r \<noteq> Some (Group x' y' [])) \<and>
   (findDeepest m h g' qx qy = Some r' \<longrightarrow> r' \<noteq> g' \<longrightarrow> deref h r' \<noteq> Some (Group x' y' []))"
proof (intro conjI impI)
  assume "deref h g = Some (Group x y [])"
  then show "containsPoint (Suc n) h g px py = Some False" by simp
next
  assume "deref h g = Some (Group x y cs)" "containsPoint (Suc n) h g px py = Some True"
  then have "scan_contains (\<lambda>c. containsPoint n h c (px - x) (py - y)) (rev cs) = Some True"
    by simp
  then show "\<exists>c\<in>set cs. containsPoint n h c (px - x) (py - y) = Some True"
    using scan_contains_True by fastforce
next
  assume "findElementAt m h e qx qy = Some (Some r)"
  then have "\<not> is_Group (deref h r)" by (rule findElementAt_leaf)
  then show "deref h r \<noteq> Some (Group x' y' [])" by auto
next
  assume "findDeepest m h g' qx qy = Some r'" "r' \<noteq> g'"
  then have "\<not> is_Group (deref h r')" using findDeepest_self_or_leaf by blast
  then show "deref h r' \<noteq> Some (Group x' y' [])" by auto
qed

theorem empty_group_never_hit_witness:
  "deref [Group 0 0 [], Group 1 1 [0, 2], Circle 0 0 3] 0 = Some (Group 0 0 []) \<and>
   containsPoint (Suc 0) [Group 0 0 [], Group 1 1 [0, 2], Circle 0 0 3] 0 0 0 = Some False \<and>
   deref [Group 0 0 [], Group 1 1 [0, 2], Circle 0 0 3] 1 = Some (Group 1 1 [0, 2]) \<and>
   containsPoint (Suc 1) [Group 0 0 [], Group 1 1 [0, 2], Circle 0 0 3] 1 1 1 = Some True \<and>
   containsPoint 1 [Group 0 0 [], Group 1 1 [0, 2], Circle 0 0 3] 2 0 0 = Some True \<and>
   findElementAt 2 [Group 0 0 [], Group 1 1 [0, 2], Circle 0 0 3]
     (addObject 1 (addObject 0 empty_editor)) 1 1 = Some (Some 2) \<and>
   findDeepest 2 [Group 0 0 [], Group 1 1 [0, 2], Circle 0 0 3] 1 1 1 = Some 2 \<and>
   deref [Group 0 0 [], Group 1 1 [0, 2], Circle 0 0 3] 2 \<noteq> Some (Group 0 0 [])"
  using empty_group_never_hit [of "[Group 0 0 [], Group 1 1 [0, 2], Circle 0 0 3]" 0 0 0 0 0 0
      "[0, 2]" 2 "addObject 1 (addObject 0 empty_editor)" 1 1 2 0 0 1 2]
  by (simp add: deref_def eval_nat_numeral word_sle_eq findElementAt_def addObject_def
      empty_editor_def)

lemma sint_square:
  fixes r :: cint
  assumes "sint r * sint r < 2 ^ 31"
  shows "sint (r * r) = sint r * sint r"
proof -
  have nn: "0 \<le> sint r * sint r" by simp
  have "signed_take_bit 31 (sint r * sint r) = sint r * sint r"
  proof (rule signed_take_bit_int_eq_self)
    show "- (2 ^ 31) \<le> sint r * sint r" by (rule order_trans [OF _ nn]) simp
    show "sint r * sint r < 2 ^ 31" by (rule assms)
  qed
  then show ?thesis by (simp add: sint_word_ariths)
qed

lemma sint_sum_squares:
  fixes dx dy :: cint
  assumes "sint dx * sint dx + sint dy * sint dy < 2 ^ 31"
  shows "sint (dx * dx + dy * dy) = sint dx * sint dx + sint dy * sint dy"
proof -
  have nn: "0 \<le> sint dx * sint dx" "0 \<le> sint dy * sint dy" by simp_all
  have le: "sint dx * sint dx \<le> sint dx * sint dx + sint dy * sint dy"
    "sint dy * sint dy \<le> sint dx * sint dx + sint dy * sint dy"
    by simp_all
  have "sint dx * sint dx < 2 ^ 31" "sint dy * sint dy < 2 ^ 31"
    by (rule le_less_trans [OF le(1) assms], rule le_less_trans [OF le(2) assms])
  then have sq: "sint (dx * dx) = sint dx * sint dx" "sint (dy * dy) = sint dy * sint dy"
    by (simp_all only: sint_square)
  have "signed_take_bit 31 (sint dx * sint dx + sint dy * sint dy)
      = sint dx * sint dx + sint dy * sint dy"
  proof (rule signed_take_bit_int_eq_self)
    have "0 \<le> sint dx * sint dx + sint dy * sint dy" using nn by linarith
    then show "- (2 ^ 31) \<le> sint dx * sint dx + sint dy * sint dy"
      by (rule order_trans [rotated]) simp
    show "sint dx * sint dx + sint dy * sint dy < 2 ^ 31" by (rule assms)
  qed
  then show ?thesis by (simp add: sint_word_add sq)
qed

lemma circle_test_exact:
  fixes dx dy r :: cint
  assumes "sint dx * sint dx + sint dy * sint dy < 2 ^ 31" and "0 \<le> sint r" and "sint r \<le> 46340"
  shows "(dx * dx + dy * dy \<le>s r * r) = (sint dx * sint dx + sint dy * sint dy \<le> sint r * sint r)"
proof -
  have "sint r * sint r \<le> 46340 * 46340"
    using assms(2,3) by (intro mult_mono) simp_all
  then have "sint (r * r) = sint r * sint r"
    by (intro sint_square) simp
  then show ?thesis
    using sint_sum_squares [OF assms(1)] by (simp add: word_sle_eq)
qed

text \<open>
  C5, as the code has it. For a well-formed Group at \<open>(gx, gy)\<close> that has among its
  children a Circle at local \<open>(cx, cy)\<close> with radius \<open>0 < r \<le> 46340\<close> (so that
  \<open>r * r\<close> fits in an \<^verbatim>\<open>int\<close>): the Group contains the point \<open>(gx + cx, gy + cy)\<close>.
  When the Circle is the only child, and for every offset \<open>(dx, dy)\<close> whose squared length
  \<open>dx * dx + dy * dy\<close> fits in an \<^verbatim>\<open>int\<close>, the Group contains the point
  \<open>(gx + cx + dx, gy + cy + dy)\<close> exactly when \<open>dx * dx + dy * dy \<le> r * r\<close>: not when the
  distance from the centre exceeds \<open>r\<close>.
\<close>

theorem group_circle_containment:
  assumes wf: "value_of (Suc n) h g = Some t"
    and g: "deref h g = Some (Group gx gy cs)"
    and c: "c \<in> set cs" "deref h c = Some (Circle cx cy r)"
    and r: "0 < sint r" "sint r \<le> 46340"
  shows "containsPoint (Suc n) h g (gx + cx) (gy + cy) = Some True \<and>
         (cs = [c] \<longrightarrow>
            (\<forall>dx dy. sint dx * sint dx + sint dy * sint dy < 2 ^ 31 \<longrightarrow>
               containsPoint (Suc n) h g (gx + cx + dx) (gy + cy + dy) =
                 Some (sint dx * sint dx + sint dy * sint dy \<le> sint r * sint r)))"
proof -
  obtain m where n: "n = Suc m"
    using value_of_child [OF wf g c(1)] by (cases n) auto
  have circle: "containsPoint n h c (cx + dx) (cy + dy) =
      Some (sint dx * sint dx + sint dy * sint dy \<le> sint r * sint r)"
    if "sint dx * sint dx + sint dy * sint dy < 2 ^ 31" for dx dy
    using circle_test_exact [OF that, of r] r c(2) n by (simp add: Let_def)
  have centre: "containsPoint n h c cx cy = Some True"
    using circle [of 0 0] by simp
  have total: "\<exists>b. containsPoint n h k (gx + cx - gx) (gy + cy - gy) = Some b"
    if "k \<in> set (rev cs)" for k
    using value_of_child [OF wf g] that containsPoint_total by fastforce
  have "scan_contains (\<lambda>k. containsPoint n h k (gx + cx - gx) (gy + cy - gy)) (rev cs) = Some True"
    by (rule scan_contains_hit [where c = c]) (use total c(1) centre in simp_all)
  then have first: "containsPoint (Suc n) h g (gx + cx) (gy + cy) = Some True"
    using g by simp
  have only: "containsPoint (Suc n) h g (gx + cx + dx) (gy + cy + dy) =
      Some (sint dx * sint dx + sint dy * sint dy \<le> sint r * sint r)"
    if "cs = [c]" "sint dx * sint dx + sint dy * sint dy < 2 ^ 31" for dx dy
  proof -
    have "gx + cx + dx - gx = cx + dx" "gy + cy + dy - gy = cy + dy"
      by simp_all
    then show ?thesis
      using g that(1) circle [OF that(2)] by (simp split: bool.splits)
  qed
  show ?thesis using first only by blast
qed

theorem group_circle_containment_witness:
  "value_of 2 main_heap 5 = Some (SGroup 4 6 [SCircle 0 1 3]) \<and>
   deref main_heap 5 = Some (Group 4 6 [6]) \<and>
   deref main_heap 6 = Some (Circle 0 1 3) \<and>
   0 < sint (3 :: cint) \<and> sint (3 :: cint) \<le> 46340 \<and>
   containsPoint 2 main_heap 5 4 7 = Some True \<and>
   containsPoint 2 main_heap 5 7 7 = Some True \<and>
   containsPoint 2 main_heap 5 7 8 = Some False"
proof -
  have wf: "value_of (Suc 1) main_heap 5 = Some (SGroup 4 6 [SCircle 0 1 3])"
    by (simp add: main_heap_def deref_def)
  have g: "deref main_heap 5 = Some (Group 4 6 [6])"
    by (simp add: main_heap_def deref_def)
  have c: "6 \<in> set [6::nat]" "deref main_heap 6 = Some (Circle 0 1 3)"
    by (simp_all add: main_heap_def deref_def)
  have r: "0 < sint (3 :: cint)" "sint (3 :: cint) \<le> 46340"
    by simp_all
  note inst = group_circle_containment [OF wf g c r]
  have a: "containsPoint 2 main_heap 5 4 7 = Some True"
    using inst by (simp del: containsPoint.simps add: numeral_2_eq_2)
  have offs: "\<forall>dx dy. sint dx * sint dx + sint dy * sint dy < 2 ^ 31 \<longrightarrow>
      containsPoint (Suc 1) main_heap 5 (4 + 0 + dx) (6 + 1 + dy) =
        Some (sint dx * sint dx + sint dy * sint dy \<le> sint (3 :: cint) * sint (3 :: cint))"
    using inst by blast
  have b: "containsPoint 2 main_heap 5 7 7 = Some True"
    using offs [rule_format, of 3 0] by (simp del: containsPoint.simps add: numeral_2_eq_2)
  have c': "containsPoint 2 main_heap 5 7 8 = Some False"
    using offs [rule_format, of 3 1] by (simp del: containsPoint.simps add: numeral_2_eq_2)
  show ?thesis
    using wf g c r a b c' by (simp del: containsPoint.simps value_of.simps add: numeral_2_eq_2)
qed

text \<open>
  C5 as stated fails where the 32-bit arithmetic of \<^verbatim>\<open>Circle::containsPoint\<close> wraps
  around. A Circle of radius 46341 does not contain its own centre, because
  \<open>46341 * 46341\<close> wraps to a negative number; and a Circle of radius 1 contains the
  point 65536 to the right of its centre, because \<open>65536 * 65536\<close> wraps to 0.
\<close>

theorem group_circle_overflow_counterexample:
  "deref [Group 100 200 [1], Circle 10 20 46341] 0 = Some (Group 100 200 [1]) \<and>
   deref [Group 100 200 [1], Circle 10 20 46341] 1 = Some (Circle 10 20 46341) \<and>
   (0 :: cint) <s 46341 \<and>
   containsPoint 2 [Group 100 200 [1], Circle 10 20 46341] 0 (100 + 10) (200 + 20) = Some False \<and>
   deref [Group 100 200 [1], Circle 10 20 1] 1 = Some (Circle 10 20 1) \<and>
   (0 :: cint) <s 1 \<and>
   containsPoint 2 [Group 100 200 [1], Circle 10 20 1] 0 (100 + 10 + 65536) (200 + 20) = Some True"
  by (simp add: deref_def eval_nat_numeral word_sle_eq word_sless_alt)

lemma reach_expand:
  "b \<in> reach h a \<Longrightarrow>
   b = a \<or> (\<exists>x y cs c. deref h a = Some (Group x y cs) \<and> c \<in> set cs \<and> b \<in> reach h c)"
proof (induction rule: reach.induct)
  case self
  show ?case by simp
next
  case (child b x y cs c)
  then show ?case
    by (metis reach.child reach.self)
qed

lemma reach_leaf: "\<not> is_Group (deref h a) \<Longrightarrow> reach h a = {a}"
proof -
  assume leaf: "\<not> is_Group (deref h a)"
  have "b = a" if "b \<in> reach h a" for b
    using reach_expand [OF that] leaf by auto
  then show ?thesis by (auto simp: reach.self)
qed

lemma move_update:
  "deref h b = Some ob \<Longrightarrow> move h b dx dy = Some (h[b := moved ob dx dy])"
  by (simp add: move_def)

lemma move_frame:
  assumes "b \<notin> reach h a"
  shows "value_of n (h[b := ob]) a = value_of n h a" and "reach (h[b := ob]) a = reach h a"
proof -
  have eq: "deref (h[b := ob]) k = deref h k" if "k \<in> reach h a" for k
    using that assms by (auto simp: deref_update)
  show "value_of n (h[b := ob]) a = value_of n h a"
    using eq by (rule value_of_frame)
  show "reach (h[b := ob]) a = reach h a"
    using eq by (rule reach_frame)
qed

text \<open>
  C8. \<^verbatim>\<open>move(dx, dy)\<close> on a well-formed Group \<open>g\<close> at \<open>(x, y)\<close> rewrites the one
  object \<open>g\<close>, to the same Group at \<open>(x + dx, y + dy)\<close> with the same children. Every
  child and every deeper descendant is another object than \<open>g\<close> and is stored as before,
  so the value of \<open>g\<close> is the old one with only the origin changed. The subtree shifts
  rigidly in the parent frame: the moved Group contains \<open>(px + dx, py + dy)\<close> exactly when
  the Group contained \<open>(px, py)\<close> before.
\<close>

theorem group_move_origin_only:
  assumes wf: "value_of n h g = Some (SGroup x y ts)" and g: "deref h g = Some (Group x y cs)"
  shows "move h g dx dy = Some (h[g := Group (x + dx) (y + dy) cs]) \<and>
         deref (h[g := Group (x + dx) (y + dy) cs]) g = Some (Group (x + dx) (y + dy) cs) \<and>
         value_of n (h[g := Group (x + dx) (y + dy) cs]) g = Some (SGroup (x + dx) (y + dy) ts) \<and>
         (\<forall>c\<in>set cs. \<forall>b\<in>reach h c.
            b \<noteq> g \<and> deref (h[g := Group (x + dx) (y + dy) cs]) b = deref h b) \<and>
         containsPoint n (h[g := Group (x + dx) (y + dy) cs]) g (px + dx) (py + dy) =
           containsPoint n h g px py"
proof -
  let ?h = "h[g := Group (x + dx) (y + dy) cs]"
  have lt: "g < length h" using g by (simp add: deref_SomeD)
  obtain m where n: "n = Suc m" using wf by (cases n) auto
  have mv: "move h g dx dy = Some ?h"
    using move_update [OF g] by simp
  have dg: "deref ?h g = Some (Group (x + dx) (y + dy) cs)"
    using lt by (simp add: deref_update)
  have acyc: "g \<notin> reach h c" if "c \<in> set cs" for c
    using value_of_acyclic [OF wf g that] .
  have kids: "\<forall>c\<in>set cs. \<forall>b\<in>reach h c. b \<noteq> g \<and> deref ?h b = deref h b"
    using acyc by (auto simp: deref_update)
  have vk: "value_of m ?h c = value_of m h c" if "c \<in> set cs" for c
    using move_frame(1) [OF acyc [OF that]] .
  have "those (map (value_of m h) cs) = Some ts"
    using wf g n by auto
  then have v: "value_of n ?h g = Some (SGroup (x + dx) (y + dy) ts)"
    using dg n vk by (simp cong: map_cong)
  have ck: "containsPoint m ?h c qx qy = containsPoint m h c qx qy" if "c \<in> set cs" for c qx qy
    using kids that by (intro containsPoint_frame) blast
  have "scan_contains (\<lambda>c. containsPoint m ?h c (px + dx - (x + dx)) (py + dy - (y + dy))) (rev cs)
      = scan_contains (\<lambda>c. containsPoint m h c (px - x) (py - y)) (rev cs)"
    by (rule scan_contains_cong) (simp add: ck)
  then have cp: "containsPoint n ?h g (px + dx) (py + dy) = containsPoint n h g px py"
    using dg g n by simp
  show ?thesis using mv dg v kids cp by blast
qed

theorem group_move_origin_only_witness:
  "value_of 3 main_heap 2 =
     Some (SGroup 2 2 [SRectangle 3 4 2 3, SCircle 1 5 2, SGroup 4 6 [SCircle 0 1 3]]) \<and>
   deref main_heap 2 = Some (Group 2 2 [3, 4, 5]) \<and>
   move main_heap 2 10 (- 1) = Some (main_heap[2 := Group 12 1 [3, 4, 5]]) \<and>
   value_of 3 (main_heap[2 := Group 12 1 [3, 4, 5]]) 2 =
     Some (SGroup 12 1 [SRectangle 3 4 2 3, SCircle 1 5 2, SGroup 4 6 [SCircle 0 1 3]]) \<and>
   6 \<in> reach main_heap 5 \<and>
   deref (main_heap[2 := Group 12 1 [3, 4, 5]]) 6 = deref main_heap 6 \<and>
   containsPoint 3 (main_heap[2 := Group 12 1 [3, 4, 5]]) 2 (5 + 10) (6 + - 1) =
     containsPoint 3 main_heap 2 5 6"
proof -
  have wf: "value_of 3 main_heap 2 =
     Some (SGroup 2 2 [SRectangle 3 4 2 3, SCircle 1 5 2, SGroup 4 6 [SCircle 0 1 3]])"
    by (simp add: main_heap_def deref_def eval_nat_numeral)
  have g: "deref main_heap 2 = Some (Group 2 2 [3, 4, 5])"
    by (simp add: main_heap_def deref_def)
  have "deref main_heap 5 = Some (Group 4 6 [6])"
    by (simp add: main_heap_def deref_def)
  then have r6: "6 \<in> reach main_heap 5"
    by (rule reach.child [OF reach.self]) simp
  note inst = group_move_origin_only [OF wf g, of 10 "- 1" 5 6]
  have kids: "\<forall>c\<in>set [3, 4, 5]. \<forall>b\<in>reach main_heap c.
      b \<noteq> 2 \<and> deref (main_heap[2 := Group (2 + 10) (2 + - 1) [3, 4, 5]]) b = deref main_heap b"
    using inst by blast
  have d6: "deref (main_heap[2 := Group (2 + 10) (2 + - 1) [3, 4, 5]]) 6 = deref main_heap 6"
    using kids r6 by simp
  show ?thesis
    using inst wf g r6 d6
    by (simp del: containsPoint.simps value_of.simps)
qed

section \<open>clone\<close>

lemma reach_Group:
  "deref h a = Some (Group x y cs) \<Longrightarrow> reach h a = insert a (\<Union>c\<in>set cs. reach h c)"
proof (intro set_eqI iffI)
  fix b assume "deref h a = Some (Group x y cs)" "b \<in> reach h a"
  then show "b \<in> insert a (\<Union>c\<in>set cs. reach h c)"
    using reach_expand [of b h a] by auto
next
  fix b assume a: "deref h a = Some (Group x y cs)" and "b \<in> insert a (\<Union>c\<in>set cs. reach h c)"
  then show "b \<in> reach h a"
    using reach_child_subset [OF a] by (auto simp: reach.self)
qed

lemma frame_range:
  assumes sub: "reach h k \<subseteq> S" and eq: "\<And>b. b \<in> S \<Longrightarrow> deref h' b = deref h b"
  shows "reach h' k = reach h k" and "value_of n h' k = value_of n h k"
proof -
  have e: "deref h' b = deref h b" if "b \<in> reach h k" for b
    using that sub eq by blast
  show "reach h' k = reach h k" using e by (rule reach_frame)
  show "value_of n h' k = value_of n h k" using e by (rule value_of_frame)
qed

lemma add_Group:
  "deref h g = Some (Group x y ks) \<Longrightarrow> add h g c = Some (h[g := Group x y (ks @ [c])])"
  by (simp add: add_def)

lemma clone_children_ok:
  assumes IH: "\<And>h a t. value_of n h a = Some t \<Longrightarrow>
      \<exists>c h'. clone n h a = Some (c, h') \<and> length h \<le> c \<and> c < length h' \<and>
        (\<forall>b<length h. h' ! b = h ! b) \<and> reach h' c \<subseteq> {length h..<length h'} \<and>
        value_of n h' c = Some t"
  shows "deref h g = Some (Group x y ks) \<Longrightarrow> L \<le> g \<Longrightarrow>
     (\<forall>c\<in>set cs. (\<exists>t. value_of n h c = Some t) \<and> reach h c \<subseteq> {..<L}) \<Longrightarrow>
     \<exists>hf ks'. clone_children (\<lambda>h' c. clone n h' c) g cs h = Some hf \<and>
       length h \<le> length hf \<and> (\<forall>b<length h. b \<noteq> g \<longrightarrow> hf ! b = h ! b) \<and>
       deref hf g = Some (Group x y (ks @ ks')) \<and>
       list_all2 (\<lambda>c k. length h \<le> k \<and> k < length hf \<and>
          reach hf k \<subseteq> {length h..<length hf} \<and> value_of n hf k = value_of n h c) cs ks'"
proof (induction cs arbitrary: h ks)
  case Nil
  then show ?case by simp
next
  case (Cons c cs)
  have g: "g < length h" "h ! g = Group x y ks"
    using Cons.prems(1) by (simp_all add: deref_SomeD)
  obtain t where t: "value_of n h c = Some t"
    using Cons.prems(3) by auto
  from IH [OF t] obtain c' h1 where c': "clone n h c = Some (c', h1)"
      "length h \<le> c'" "c' < length h1" "\<forall>b<length h. h1 ! b = h ! b"
      "reach h1 c' \<subseteq> {length h..<length h1}" "value_of n h1 c' = Some t"
    by blast
  have g1: "deref h1 g = Some (Group x y ks)"
    using g c'(2,3,4) by (simp add: deref_def)
  define h2 where "h2 = h1[g := Group x y (ks @ [c'])]"
  have add: "add h1 g c' = Some h2"
    unfolding h2_def by (rule add_Group [OF g1])
  have len2: "length h2 = length h1" by (simp add: h2_def)
  have g2: "deref h2 g = Some (Group x y (ks @ [c']))"
    using g c'(2,3) by (simp add: h2_def deref_update)
  have old: "deref h2 b = deref h b" if "b \<in> {..<L}" for b
  proof -
    have "b < length h" "b \<noteq> g" using that Cons.prems(2) g(1) by auto
    then show ?thesis
      using c'(2,3,4) by (simp add: h2_def deref_def)
  qed
  have kids2: "\<forall>k\<in>set cs. (\<exists>t. value_of n h2 k = Some t) \<and> reach h2 k \<subseteq> {..<L}"
  proof
    fix k assume k: "k \<in> set cs"
    then have sub: "reach h k \<subseteq> {..<L}" and v: "\<exists>t. value_of n h k = Some t"
      using Cons.prems(3) by auto
    show "(\<exists>t. value_of n h2 k = Some t) \<and> reach h2 k \<subseteq> {..<L}"
      using frame_range [OF sub old] sub v by simp
  qed
  from Cons.IH [OF g2 Cons.prems(2) kids2]
  obtain hf ks' where hf: "clone_children (\<lambda>h' c. clone n h' c) g cs h2 = Some hf"
      "length h2 \<le> length hf" "\<forall>b<length h2. b \<noteq> g \<longrightarrow> hf ! b = h2 ! b"
      "deref hf g = Some (Group x y ((ks @ [c']) @ ks'))"
      "list_all2 (\<lambda>c k. length h2 \<le> k \<and> k < length hf \<and>
          reach hf k \<subseteq> {length h2..<length hf} \<and> value_of n hf k = value_of n h2 c) cs ks'"
    by blast
  have run: "clone_children (\<lambda>h' c. clone n h' c) g (c # cs) h = Some hf"
    using c'(1) add hf(1) by simp
  have lenf: "length h \<le> length hf"
    using c'(2,3) len2 hf(2) by linarith
  have keep: "\<forall>b<length h. b \<noteq> g \<longrightarrow> hf ! b = h ! b"
  proof (intro allI impI)
    fix b assume b: "b < length h" "b \<noteq> g"
    then have "b < length h2" using c'(2,3) len2 by linarith
    then have "hf ! b = h2 ! b" using hf(3) b(2) by blast
    also have "\<dots> = h1 ! b" using b(2) by (simp add: h2_def)
    also have "\<dots> = h ! b" using c'(4) b(1) by blast
    finally show "hf ! b = h ! b" .
  qed
  have mid: "deref hf b = deref h1 b" if "b \<in> {length h..<length h1}" for b
  proof -
    have "b < length h2" "b \<noteq> g" using that len2 g(1) by auto
    then have "hf ! b = h1 ! b" using hf(3) by (simp add: h2_def)
    then show ?thesis
      using that hf(2) len2 by (simp add: deref_def)
  qed
  have first: "length h \<le> c' \<and> c' < length hf \<and>
      reach hf c' \<subseteq> {length h..<length hf} \<and> value_of n hf c' = value_of n h c"
    using frame_range [OF c'(5) mid] c'(2,3,5,6) t hf(2) len2 by auto
  have rest: "list_all2 (\<lambda>c k. length h \<le> k \<and> k < length hf \<and>
          reach hf k \<subseteq> {length h..<length hf} \<and> value_of n hf k = value_of n h c) cs ks'"
  proof (rule list.rel_mono_strong [OF hf(5)])
    fix k k' assume k: "k \<in> set cs" and
      p: "length h2 \<le> k' \<and> k' < length hf \<and> reach hf k' \<subseteq> {length h2..<length hf} \<and>
          value_of n hf k' = value_of n h2 k"
    have sub: "reach h k \<subseteq> {..<L}" using Cons.prems(3) k by auto
    have "value_of n h2 k = value_of n h k"
      using frame_range(2) [OF sub old] by simp
    moreover have "length h \<le> length h2" using c'(2,3) len2 by linarith
    ultimately show "length h \<le> k' \<and> k' < length hf \<and>
      reach hf k' \<subseteq> {length h..<length hf} \<and> value_of n hf k' = value_of n h k"
      using p by auto
  qed
  show ?case
    using run lenf keep hf(4) first rest by (intro exI [of _ hf] exI [of _ "c' # ks'"]) simp
qed

lemma list_all2_map_eq:
  "list_all2 (\<lambda>x y. f y = g x) xs ys \<Longrightarrow> map f ys = map g xs"
  by (induction rule: list_all2_induct) simp_all

lemma list_all2_rightD:
  "list_all2 (\<lambda>x y. Q y) xs ys \<Longrightarrow> y \<in> set ys \<Longrightarrow> Q y"
  by (induction rule: list_all2_induct) auto

lemma clone_ok:
  "value_of n h a = Some t \<Longrightarrow>
   \<exists>c h'. clone n h a = Some (c, h') \<and> length h \<le> c \<and> c < length h' \<and>
     (\<forall>b<length h. h' ! b = h ! b) \<and> reach h' c \<subseteq> {length h..<length h'} \<and>
     value_of n h' c = Some t"
proof (induction n arbitrary: h a t)
  case 0
  then show ?case by simp
next
  case (Suc n)
  then obtain ob where ob: "deref h a = Some ob"
    by (cases "deref h a") auto
  have leaf: ?case
    if nb: "\<not> is_Group (Some ob)" and cl: "clone (Suc n) h a = Some (length h, h @ [ob])"
      and v: "value_of (Suc n) (h @ [ob]) (length h) = Some t"
  proof -
    have "deref (h @ [ob]) (length h) = Some ob" by (simp add: deref_def)
    then have "reach (h @ [ob]) (length h) = {length h}"
      using nb by (simp add: reach_leaf)
    then show ?thesis
      using cl v by (simp add: nth_append)
  qed
  show ?case
  proof (cases ob)
    case (Circle x y r)
    show ?thesis
      using Suc.prems ob Circle by (intro leaf) (simp_all add: make_shared_def deref_def)
  next
    case (Rectangle x y w hh)
    show ?thesis
      using Suc.prems ob Rectangle by (intro leaf) (simp_all add: make_shared_def deref_def)
  next
    case (Group x y cs)
    define g where "g = length h"
    define h1 where "h1 = h @ [Group x y []]"
    have a: "deref h a = Some (Group x y cs)" using ob Group by simp
    obtain ts where ts: "those (map (value_of n h) cs) = Some ts" "t = SGroup x y ts"
      using Suc.prems a by auto
    have g1: "deref h1 g = Some (Group x y [])"
      by (simp add: h1_def g_def deref_def)
    have old: "deref h1 b = deref h b" if "b \<in> {..<length h}" for b
      using that by (simp add: h1_def deref_append)
    have sub: "reach h c \<subseteq> {..<length h}" if c: "c \<in> set cs" for c
    proof -
      obtain t' where "value_of n h c = Some t'"
        using value_of_child [OF Suc.prems a c] by auto
      then show ?thesis using value_of_reach_allocated by blast
    qed
    have kids: "\<forall>c\<in>set cs. (\<exists>t. value_of n h1 c = Some t) \<and> reach h1 c \<subseteq> {..<length h}"
    proof
      fix c assume c: "c \<in> set cs"
      obtain t' where "value_of n h c = Some t'"
        using value_of_child [OF Suc.prems a c] by auto
      then show "(\<exists>t. value_of n h1 c = Some t) \<and> reach h1 c \<subseteq> {..<length h}"
        using frame_range [OF sub [OF c] old] sub [OF c] by simp
    qed
    have "length h \<le> g" by (simp add: g_def)
    from clone_children_ok [of n, OF Suc.IH g1 this kids]
    obtain hf ks' where hf: "clone_children (\<lambda>h' c. clone n h' c) g cs h1 = Some hf"
      "length h1 \<le> length hf" "\<forall>b<length h1. b \<noteq> g \<longrightarrow> hf ! b = h1 ! b"
      "deref hf g = Some (Group x y ([] @ ks'))"
      "list_all2 (\<lambda>c k. length h1 \<le> k \<and> k < length hf \<and>
          reach hf k \<subseteq> {length h1..<length hf} \<and> value_of n hf k = value_of n h1 c) cs ks'"
      by blast
    have cl: "clone (Suc n) h a = Some (g, hf)"
      using a hf(1) by (simp add: make_shared_def g_def h1_def)
    have len1: "length h1 = Suc (length h)" by (simp add: h1_def)
    have keep: "\<forall>b<length h. hf ! b = h ! b"
    proof (intro allI impI)
      fix b assume b: "b < length h"
      then have "hf ! b = h1 ! b" using hf(3) len1 by (simp add: g_def)
      then show "hf ! b = h ! b" using b by (simp add: h1_def nth_append)
    qed
    have "list_all2 (\<lambda>c k. reach hf k \<subseteq> {length h1..<length hf}) cs ks'"
      by (rule list.rel_mono_strong [OF hf(5)]) simp
    then have rk: "reach hf k \<subseteq> {length h1..<length hf}" if "k \<in> set ks'" for k
      using that by (rule list_all2_rightD)
    have "reach hf g = insert g (\<Union>k\<in>set ks'. reach hf k)"
      using hf(4) by (simp add: reach_Group)
    then have rg: "reach hf g \<subseteq> {length h..<length hf}"
      using rk hf(2) len1 by (fastforce simp: g_def)
    have "list_all2 (\<lambda>c k. value_of n hf k = value_of n h1 c) cs ks'"
      by (rule list.rel_mono_strong [OF hf(5)]) simp
    then have "map (value_of n hf) ks' = map (value_of n h1) cs"
      by (rule list_all2_map_eq)
    also have "\<dots> = map (value_of n h) cs"
      using frame_range(2) [OF sub old] by simp
    finally have "value_of (Suc n) hf g = Some t"
      using hf(4) ts by simp
    then show ?thesis
      using cl keep rg hf(2) len1 by (simp add: g_def)
  qed
qed

text \<open>
  C7. For every well-formed shape \<open>s\<close>, a leaf or a Group of any depth, \<^verbatim>\<open>clone()\<close>
  returns a pointer \<open>c\<close> to a copy with the same value, and leaves the value of \<open>s\<close> as
  it was. No object is reachable both from \<open>s\<close> and from \<open>c\<close>. After the clone,
  \<^verbatim>\<open>move\<close> on \<open>s\<close> or on any descendant of \<open>s\<close> leaves every coordinate reachable
  from \<open>c\<close> unchanged, and \<^verbatim>\<open>move\<close> on \<open>c\<close> or on any descendant of \<open>c\<close> leaves every
  coordinate reachable from \<open>s\<close> unchanged.
\<close>

theorem clone_independent:
  assumes "value_of n h s = Some t"
  shows "\<exists>c h'. clone n h s = Some (c, h') \<and>
           value_of n h' c = Some t \<and> value_of n h' s = Some t \<and>
           reach h' s \<inter> reach h' c = {} \<and>
           (\<forall>b\<in>reach h' s. \<forall>dx dy. \<exists>h''. move h' b dx dy = Some h'' \<and>
              value_of n h'' c = Some t \<and> reach h'' c = reach h' c) \<and>
           (\<forall>b\<in>reach h' c. \<forall>dx dy. \<exists>h''. move h' b dx dy = Some h'' \<and>
              value_of n h'' s = Some t \<and> reach h'' s = reach h' s)"
proof -
  from clone_ok [OF assms] obtain c h' where c: "clone n h s = Some (c, h')"
      "length h \<le> c" "c < length h'" "\<forall>b<length h. h' ! b = h ! b"
      "reach h' c \<subseteq> {length h..<length h'}" "value_of n h' c = Some t"
    by blast
  have olds: "reach h s \<subseteq> {..<length h}"
    using value_of_reach_allocated [OF assms] by blast
  have old: "deref h' b = deref h b" if "b \<in> {..<length h}" for b
    using that c(2,3,4) by (simp add: deref_def)
  have rs: "reach h' s = reach h s" and vs: "value_of n h' s = Some t"
    using frame_range [OF olds old] assms by simp_all
  have disj: "reach h' s \<inter> reach h' c = {}"
    using rs olds c(5) by fastforce
  have alloc: "\<exists>ob. deref h' b = Some ob" if "b \<in> reach h' s \<union> reach h' c" for b
    using that rs olds c(2,3,5) by (fastforce simp: deref_def)
  have m1: "\<exists>h''. move h' b dx dy = Some h'' \<and> value_of n h'' c = Some t \<and> reach h'' c = reach h' c"
    if b: "b \<in> reach h' s" for b dx dy
  proof -
    obtain ob where ob: "deref h' b = Some ob" using alloc b by blast
    have "b \<notin> reach h' c" using b disj by blast
    then show ?thesis
      using move_update [OF ob] move_frame c(6) by simp
  qed
  have m2: "\<exists>h''. move h' b dx dy = Some h'' \<and> value_of n h'' s = Some t \<and> reach h'' s = reach h' s"
    if b: "b \<in> reach h' c" for b dx dy
  proof -
    obtain ob where ob: "deref h' b = Some ob" using alloc b by blast
    have "b \<notin> reach h' s" using b disj by blast
    then show ?thesis
      using move_update [OF ob] move_frame vs by simp
  qed
  show ?thesis
    using c(1,6) vs disj m1 m2 by blast
qed

theorem clone_independent_witness:
  "value_of 3 main_heap 2 =
     Some (SGroup 2 2 [SRectangle 3 4 2 3, SCircle 1 5 2, SGroup 4 6 [SCircle 0 1 3]]) \<and>
   clone 3 main_heap 2 = Some (7, main_heap_clone) \<and>
   value_of 3 main_heap_clone 7 =
     Some (SGroup 2 2 [SRectangle 3 4 2 3, SCircle 1 5 2, SGroup 4 6 [SCircle 0 1 3]]) \<and>
   5 \<in> reach main_heap_clone 2 \<and>
   move main_heap_clone 5 10 20 = Some (main_heap_clone[5 := Group 14 26 [6]]) \<and>
   value_of 3 (main_heap_clone[5 := Group 14 26 [6]]) 2 =
     Some (SGroup 2 2 [SRectangle 3 4 2 3, SCircle 1 5 2, SGroup 14 26 [SCircle 0 1 3]]) \<and>
   value_of 3 (main_heap_clone[5 := Group 14 26 [6]]) 7 =
     Some (SGroup 2 2 [SRectangle 3 4 2 3, SCircle 1 5 2, SGroup 4 6 [SCircle 0 1 3]]) \<and>
   10 \<in> reach main_heap_clone 7 \<and>
   move main_heap_clone 10 10 20 = Some (main_heap_clone[10 := Group 14 26 [11]]) \<and>
   value_of 3 (main_heap_clone[10 := Group 14 26 [11]]) 2 =
     Some (SGroup 2 2 [SRectangle 3 4 2 3, SCircle 1 5 2, SGroup 4 6 [SCircle 0 1 3]])"
proof -
  let ?t = "SGroup 2 2 [SRectangle 3 4 2 3, SCircle 1 5 2, SGroup 4 6 [SCircle 0 1 3]]"
  have wf: "value_of 3 main_heap 2 = Some ?t"
    by (simp add: main_heap_def deref_def eval_nat_numeral)
  have cl: "clone 3 main_heap 2 = Some (7, main_heap_clone)"
    by (simp add: main_heap_def main_heap_clone_def deref_def eval_nat_numeral make_shared_def
        add_def)
  from clone_independent [OF wf] obtain c h' where c: "clone 3 main_heap 2 = Some (c, h')"
    "value_of 3 h' c = Some ?t"
    "\<forall>b\<in>reach h' 2. \<forall>dx dy. \<exists>h''. move h' b dx dy = Some h'' \<and>
        value_of 3 h'' c = Some ?t \<and> reach h'' c = reach h' c"
    "\<forall>b\<in>reach h' c. \<forall>dx dy. \<exists>h''. move h' b dx dy = Some h'' \<and>
        value_of 3 h'' 2 = Some ?t \<and> reach h'' 2 = reach h' 2"
    by blast
  have eq: "c = 7" "h' = main_heap_clone"
    using c(1) unfolding cl by simp_all
  have d2: "deref main_heap_clone 2 = Some (Group 2 2 [3, 4, 5])"
    and d7: "deref main_heap_clone 7 = Some (Group 2 2 [8, 9, 10])"
    by (simp_all add: main_heap_clone_def main_heap_def deref_def)
  have r5: "5 \<in> reach main_heap_clone 2"
    by (rule reach.child [OF reach.self d2]) simp
  have r10: "10 \<in> reach main_heap_clone 7"
    by (rule reach.child [OF reach.self d7]) simp
  have m5: "move main_heap_clone 5 10 20 = Some (main_heap_clone[5 := Group 14 26 [6]])"
    and m10: "move main_heap_clone 10 10 20 = Some (main_heap_clone[10 := Group 14 26 [11]])"
    by (simp_all add: move_def main_heap_clone_def main_heap_def deref_def)
  have v5: "value_of 3 (main_heap_clone[5 := Group 14 26 [6]]) 7 = Some ?t"
  proof -
    from c(3) [unfolded eq, rule_format, OF r5, of 10 20]
    obtain h'' where "move main_heap_clone 5 10 20 = Some h''" "value_of 3 h'' 7 = Some ?t"
      by blast
    then show ?thesis unfolding m5 by simp
  qed
  have v10: "value_of 3 (main_heap_clone[10 := Group 14 26 [11]]) 2 = Some ?t"
  proof -
    from c(4) [unfolded eq, rule_format, OF r10, of 10 20]
    obtain h'' where "move main_heap_clone 10 10 20 = Some h''" "value_of 3 h'' 2 = Some ?t"
      by blast
    then show ?thesis unfolding m10 by simp
  qed
  have moved5: "value_of 3 (main_heap_clone[5 := Group 14 26 [6]]) 2 =
     Some (SGroup 2 2 [SRectangle 3 4 2 3, SCircle 1 5 2, SGroup 14 26 [SCircle 0 1 3]])"
    by (simp add: main_heap_clone_def main_heap_def deref_def eval_nat_numeral)
  have v7: "value_of 3 main_heap_clone 7 = Some ?t"
    using c(2) unfolding eq .
  show ?thesis
    using wf cl v7 r5 m5 moved5 v5 r10 m10 v10 by blast
qed

end
